theory Spec2Isabelle
  imports Main "HOL-Library.Sublist"
begin

section \<open>The technique recommendation filter of \<^verbatim>\<open>src/lib/uxTechniques.ts\<close>\<close>

subsection \<open>Data\<close>

text \<open>
  \<^verbatim>\<open>interface TechniqueDetail\<close>. The catalog is JSON cast to this interface without
  validation. The function tests \<^verbatim>\<open>user_base\<close> and the technique-side arrays handed to
  \<^verbatim>\<open>doArraysIntersect\<close> for presence before reading them, so these four fields may be
  absent (\<open>None\<close>); \<^verbatim>\<open>project_types\<close> is read without a test and is an array as the
  interface declares.
\<close>

record TechniqueDetail =
  name :: string
  slug :: string
  stage :: string
  outcomes :: "string list option"
  output_types :: "string list option"
  device_types :: "string list option"
  project_types :: "string list"
  user_base :: "string list option"

text \<open>
  \<^verbatim>\<open>type Requirement\<close> (the zod schema \<^verbatim>\<open>RequirementSchema\<close>), restricted to the five
  fields that \<^verbatim>\<open>getFilteredTechniques\<close> reads. \<open>None\<close> stands for \<^verbatim>\<open>undefined\<close> and
  \<^verbatim>\<open>null\<close>, which the function never tells apart.
\<close>

record Requirement =
  output_type :: "string list option"
  outcome :: "string list option"
  device_type :: "string list option"
  project_type :: "string option"
  existing_users :: "bool option"

text \<open>An element \<^verbatim>\<open>{name, slug}\<close> of a result array.\<close>

record entry =
  ename :: string
  eslug :: string

text \<open>
  The object \<^verbatim>\<open>recommendations\<close>: its own properties in insertion order, each holding
  an array.
\<close>

type_synonym recommendations = "(string \<times> entry list) list"

datatype error = TypeError

subsection \<open>Strings\<close>

text \<open>
  \<^verbatim>\<open>String.prototype.toLowerCase\<close> on strings of code units below 256: the letters
  A to Z and the Latin-1 capitals (all of 192 to 222 but the multiplication sign 215)
  move up by 32, every other character stays.
\<close>

definition lowerChar :: "char \<Rightarrow> char" where
  "lowerChar c =
     (let n = (of_char c :: nat)
      in if (65 \<le> n \<and> n \<le> 90) \<or> (192 \<le> n \<and> n \<le> 222 \<and> n \<noteq> 215)
         then char_of (n + 32) else c)"

definition toLowerCase :: "string \<Rightarrow> string" where
  "toLowerCase s = map lowerChar s"

subsection \<open>The matching criteria\<close>

text \<open>
  \<^verbatim>\<open>doArraysIntersect\<close>: an absent or empty array on either side matches; otherwise
  \<^verbatim>\<open>reqArray.some(item => techArray.includes(item))\<close>.
\<close>

definition doArraysIntersect :: "string list option \<Rightarrow> string list option \<Rightarrow> bool" where
  "doArraysIntersect reqArray techArray =
     (case reqArray of
        None \<Rightarrow> True
      | Some r \<Rightarrow>
          if length r = 0 then True
          else (case techArray of
                  None \<Rightarrow> True
                | Some t \<Rightarrow>
                    if length t = 0 then True
                    else list_ex (\<lambda>item. item \<in> set t) r))"

text \<open>
  \<^verbatim>\<open>requirement.project_type ? tech.project_types.some(...) : true\<close>. The test is
  JavaScript truthiness: an absent value and the empty string both take the
  \<^verbatim>\<open>true\<close> branch.
\<close>

definition projectTypeMatch :: "Requirement \<Rightarrow> TechniqueDetail \<Rightarrow> bool" where
  "projectTypeMatch requirement tech =
     (case project_type requirement of
        None \<Rightarrow> True
      | Some v \<Rightarrow>
          if v = [] then True
          else list_ex (\<lambda>pType. toLowerCase pType = toLowerCase v) (project_types tech))"

definition userContext :: "Requirement \<Rightarrow> string" where
  "userContext requirement =
     (if existing_users requirement = Some True then ''existing'' else ''new'')"

text \<open>
  \<^verbatim>\<open>tech.user_base ? tech.user_base.includes(userContext) : true\<close>. An array is truthy
  even when it is empty.
\<close>

definition userBaseMatch :: "Requirement \<Rightarrow> TechniqueDetail \<Rightarrow> bool" where
  "userBaseMatch requirement tech =
     (case user_base tech of
        None \<Rightarrow> True
      | Some ub \<Rightarrow> userContext requirement \<in> set ub)"

definition outcomeMatch :: "Requirement \<Rightarrow> TechniqueDetail \<Rightarrow> bool" where
  "outcomeMatch requirement tech = doArraysIntersect (outcome requirement) (outcomes tech)"

definition deviceTypeMatch :: "Requirement \<Rightarrow> TechniqueDetail \<Rightarrow> bool" where
  "deviceTypeMatch requirement tech =
     doArraysIntersect (device_type requirement) (device_types tech)"

definition earlyStages :: "string list" where
  "earlyStages = [''Discover'', ''Define'', ''Design'']"

definition isEarlyStage :: "TechniqueDetail \<Rightarrow> bool" where
  "isEarlyStage tech = (stage tech \<in> set earlyStages)"

definition outputTypeMatch :: "Requirement \<Rightarrow> TechniqueDetail \<Rightarrow> bool" where
  "outputTypeMatch requirement tech =
     (isEarlyStage tech \<or> doArraysIntersect (output_type requirement) (output_types tech))"

text \<open>The condition of the outer \<^verbatim>\<open>if\<close> in the loop body, in the source's order.\<close>

definition allMatch :: "Requirement \<Rightarrow> TechniqueDetail \<Rightarrow> bool" where
  "allMatch requirement tech =
     (projectTypeMatch requirement tech \<and> outcomeMatch requirement tech \<and>
      deviceTypeMatch requirement tech \<and> outputTypeMatch requirement tech \<and>
      userBaseMatch requirement tech)"

subsection \<open>The result object\<close>

definition allStages :: "string list" where
  "allStages = [''Discover'', ''Define'', ''Design'', ''Develop'', ''Deliver'']"

text \<open>
  \<^verbatim>\<open>recommendations\<close> is an object literal, so a property read that finds no own
  property continues in \<^verbatim>\<open>Object.prototype\<close>. These are the property names found
  there; each holds a function (or, for \<^verbatim>\<open>__proto__\<close>, the prototype object): a truthy
  value that has no \<^verbatim>\<open>find\<close> method.
\<close>

definition objectPrototypeKeys :: "string list" where
  "objectPrototypeKeys =
     [''constructor'', ''__defineGetter__'', ''__defineSetter__'', ''hasOwnProperty'',
      ''__lookupGetter__'', ''__lookupSetter__'', ''isPrototypeOf'',
      ''propertyIsEnumerable'', ''toString'', ''valueOf'', ''__proto__'',
      ''toLocaleString'']"

datatype property = Array "entry list" | Inherited | Undefined

text \<open>The read \<^verbatim>\<open>recommendations[key]\<close>.\<close>

definition getProp :: "recommendations \<Rightarrow> string \<Rightarrow> property" where
  "getProp recs key =
     (case map_of recs key of
        Some lst \<Rightarrow> Array lst
      | None \<Rightarrow> if key \<in> set objectPrototypeKeys then Inherited else Undefined)"

text \<open>
  The write \<^verbatim>\<open>recommendations[key] = v\<close> (also the effect of \<^verbatim>\<open>push\<close> on the array
  held under \<open>key\<close>): an existing property keeps its place, a new one goes last.
\<close>

fun setProp :: "recommendations \<Rightarrow> string \<Rightarrow> entry list \<Rightarrow> recommendations" where
  "setProp [] key v = [(key, v)]"
| "setProp ((k, old) # ps) key v =
     (if k = key then (key, v) # ps else (k, old) # setProp ps key v)"

definition toEntry :: "TechniqueDetail \<Rightarrow> entry" where
  "toEntry tech = \<lparr>ename = name tech, eslug = slug tech\<rparr>"

text \<open>
  The body of \<^verbatim>\<open>allTechniques.forEach\<close>. With all five criteria true it reads
  \<^verbatim>\<open>recommendations[tech.stage]\<close>: \<^verbatim>\<open>undefined\<close> is falsy and skips the technique; an
  inherited value is truthy, so \<^verbatim>\<open>.find(...)\<close> is called on a value without that
  method, which throws a \<^verbatim>\<open>TypeError\<close>; an array is searched for the name and the
  entry is pushed when \<^verbatim>\<open>find\<close> returns \<^verbatim>\<open>undefined\<close>.
\<close>

definition visit :: "Requirement \<Rightarrow> recommendations \<Rightarrow> TechniqueDetail \<Rightarrow> error + recommendations" where
  "visit requirement recs tech =
     (if allMatch requirement tech then
        (case getProp recs (stage tech) of
           Undefined \<Rightarrow> Inr recs
         | Inherited \<Rightarrow> Inl TypeError
         | Array lst \<Rightarrow>
             if find (\<lambda>t. ename t = name tech) lst = None
             then Inr (setProp recs (stage tech) (lst @ [toEntry tech]))
             else Inr recs)
      else Inr recs)"

text \<open>\<^verbatim>\<open>Array.prototype.forEach\<close> over a callback that may throw.\<close>

fun forEach :: "('s \<Rightarrow> 'a \<Rightarrow> error + 's) \<Rightarrow> 's \<Rightarrow> 'a list \<Rightarrow> error + 's" where
  "forEach f s [] = Inr s"
| "forEach f s (x # xs) = (case f s x of Inl e \<Rightarrow> Inl e | Inr s' \<Rightarrow> forEach f s' xs)"

text \<open>The body of \<^verbatim>\<open>allStages.forEach\<close>: only a falsy read creates the key.\<close>

definition ensureStage :: "recommendations \<Rightarrow> string \<Rightarrow> recommendations" where
  "ensureStage recs st =
     (case getProp recs st of Undefined \<Rightarrow> setProp recs st [] | _ \<Rightarrow> recs)"

text \<open>
  \<^verbatim>\<open>getFilteredTechniques\<close>. The module constant \<^verbatim>\<open>allTechniques\<close> is the content of
  \<^verbatim>\<open>uxTechniqueDetails.json\<close>, taken here as the parameter \<open>catalog\<close>. A falsy
  \<^verbatim>\<open>requirement\<close> (\<open>None\<close>) returns the five empty arrays at once.
\<close>

definition getFilteredTechniques ::
    "TechniqueDetail list \<Rightarrow> Requirement option \<Rightarrow> error + recommendations" where
  "getFilteredTechniques catalog requirement =
     (let recs0 = [(''Discover'', []), (''Define'', []), (''Design'', []),
                   (''Develop'', []), (''Deliver'', [])]
      in case requirement of
           None \<Rightarrow> Inr recs0
         | Some req \<Rightarrow>
             (case forEach (visit req) recs0 catalog of
                Inl e \<Rightarrow> Inl e
              | Inr recs \<Rightarrow> Inr (foldl ensureStage recs allStages)))"

subsection \<open>Notions used to state the properties\<close>

text \<open>The set of tags an optional array carries: none when it is absent.\<close>

definition tags :: "string list option \<Rightarrow> string set" where
  "tags a = (case a of None \<Rightarrow> {} | Some xs \<Rightarrow> set xs)"

text \<open>The guarded push of the loop body, on one array.\<close>

definition pushUnique :: "entry list \<Rightarrow> TechniqueDetail \<Rightarrow> entry list" where
  "pushUnique lst tech =
     (if find (\<lambda>t. ename t = name tech) lst = None then lst @ [toEntry tech] else lst)"

text \<open>
  The array a stage ends with when the loop starts from \<open>lst\<close>: the guarded push over
  the techniques of that stage that satisfy all five criteria, in catalog order.
\<close>

definition stageList :: "Requirement \<Rightarrow> TechniqueDetail list \<Rightarrow> string \<Rightarrow> entry list \<Rightarrow> entry list" where
  "stageList req catalog k lst =
     foldl pushUnique lst (filter (\<lambda>t. stage t = k \<and> allMatch req t) catalog)"

text \<open>
  Position \<open>i\<close> of the catalog holds a technique of stage \<open>s\<close> that satisfies all five
  criteria, and no technique before it of that stage and name does.
\<close>

definition firstPassingAt :: "Requirement \<Rightarrow> TechniqueDetail list \<Rightarrow> string \<Rightarrow> nat \<Rightarrow> bool" where
  "firstPassingAt req catalog s i =
     (stage (catalog ! i) = s \<and> allMatch req (catalog ! i) \<and>
      (\<forall>t' \<in> set (take i catalog).
          \<not> (stage t' = s \<and> allMatch req t' \<and> name t' = name (catalog ! i))))"

text \<open>
  Equality of strings up to the case of letters, stated without \<open>toLowerCase\<close>: the
  strings have the same length and, position by position, the characters are equal or
  one is a capital (A to Z, or a Latin-1 capital) and the other its small letter, 32
  code units above.
\<close>

definition isUpperCase :: "char \<Rightarrow> bool" where
  "isUpperCase c =
     (let n = (of_char c :: nat)
      in (65 \<le> n \<and> n \<le> 90) \<or> (192 \<le> n \<and> n \<le> 222 \<and> n \<noteq> 215))"

definition sameLetter :: "char \<Rightarrow> char \<Rightarrow> bool" where
  "sameLetter c d =
     (c = d \<or> (isUpperCase c \<and> (of_char d :: nat) = of_char c + 32)
            \<or> (isUpperCase d \<and> (of_char c :: nat) = of_char d + 32))"

definition equalIgnoringCase :: "string \<Rightarrow> string \<Rightarrow> bool" where
  "equalIgnoringCase p v = list_all2 sameLetter p v"

subsection \<open>Concrete catalogs and requirements\<close>

definition techInterviews :: TechniqueDetail where
  "techInterviews = \<lparr>name = ''User Interviews'', slug = ''user-interviews'', stage = ''Discover'',
     outcomes = Some [''Qualitative''], output_types = Some [''Mobile App''],
     device_types = Some [], project_types = [''New'', ''Old''],
     user_base = Some [''new'', ''existing'']\<rparr>"

definition techRelease :: TechniqueDetail where
  "techRelease = \<lparr>name = ''Release Notes'', slug = ''release-notes'', stage = ''Deliver'',
     outcomes = Some [], output_types = Some [''Mobile App''],
     device_types = Some [], project_types = [''New''], user_base = None\<rparr>"

definition techAuditOld :: TechniqueDetail where
  "techAuditOld = \<lparr>name = ''Audit'', slug = ''audit-old'', stage = ''Define'',
     outcomes = Some [], output_types = Some [], device_types = Some [],
     project_types = [''Old''], user_base = None\<rparr>"

definition techAuditNew :: TechniqueDetail where
  "techAuditNew = \<lparr>name = ''Audit'', slug = ''audit-new'', stage = ''Define'',
     outcomes = Some [], output_types = Some [], device_types = Some [],
     project_types = [''New''], user_base = None\<rparr>"

definition reqMobile :: Requirement where
  "reqMobile = \<lparr>output_type = Some [''Mobile App''], outcome = Some [''Qualitative''],
     device_type = Some [''Mobile''], project_type = Some ''new'', existing_users = Some False\<rparr>"

definition reqDesktop :: Requirement where
  "reqDesktop = \<lparr>output_type = Some [''Desktop Software''], outcome = Some [''Qualitative''],
     device_type = Some [''Mobile''], project_type = Some ''new'', existing_users = Some False\<rparr>"

definition reqKiosk :: Requirement where
  "reqKiosk = \<lparr>output_type = Some [''Kiosk''], outcome = Some [''Qualitative''],
     device_type = Some [''Mobile''], project_type = Some ''new'', existing_users = Some False\<rparr>"



definition reqAbsent :: Requirement where
  "reqAbsent = \<lparr>output_type = None, outcome = None, device_type = None,
     project_type = None, existing_users = None\<rparr>"

definition reqUpper :: Requirement where
  "reqUpper = \<lparr>output_type = Some [], outcome = Some [], device_type = Some [],
     project_type = Some ''OLD'', existing_users = Some True\<rparr>"

definition techAuditFirst :: TechniqueDetail where
  "techAuditFirst = \<lparr>name = ''Audit'', slug = ''audit'', stage = ''Define'',
     outcomes = Some [], output_types = Some [], device_types = Some [],
     project_types = [''Old''], user_base = None\<rparr>"

definition techBrief :: TechniqueDetail where
  "techBrief = \<lparr>name = ''Brief'', slug = ''brief'', stage = ''Define'',
     outcomes = Some [], output_types = Some [], device_types = Some [],
     project_types = [''New'', ''Old''], user_base = None\<rparr>"

definition techAuditLater :: TechniqueDetail where
  "techAuditLater = \<lparr>name = ''Audit'', slug = ''audit'', stage = ''Define'',
     outcomes = Some [], output_types = Some [], device_types = Some [],
     project_types = [''New''], user_base = None\<rparr>"

definition catalogOrder :: "TechniqueDetail list" where
  "catalogOrder = [techAuditFirst, techBrief, techAuditLater]"

definition resultOrder :: recommendations where
  "resultOrder =
     [(''Discover'', []),
      (''Define'', [\<lparr>ename = ''Brief'', eslug = ''brief''\<rparr>,
                    \<lparr>ename = ''Audit'', eslug = ''audit''\<rparr>]),
      (''Design'', []), (''Develop'', []), (''Deliver'', [])]"

definition reqUnset :: Requirement where
  "reqUnset = \<lparr>output_type = Some [], outcome = Some [], device_type = Some [],
     project_type = None, existing_users = None\<rparr>"

definition techExistingOnly :: TechniqueDetail where
  "techExistingOnly = \<lparr>name = ''Analytics Review'', slug = ''analytics-review'',
     stage = ''Discover'', outcomes = Some [''Quantitative''], output_types = Some [],
     device_types = Some [], project_types = [''Old''], user_base = Some [''existing'']\<rparr>"

definition techInherited :: TechniqueDetail where
  "techInherited = \<lparr>name = ''Card Sorting'', slug = ''card-sorting'',
     stage = ''constructor'', outcomes = Some [], output_types = Some [],
     device_types = Some [], project_types = [''New'', ''Old''],
     user_base = Some [''new'', ''existing'']\<rparr>"

definition techNoBase :: TechniqueDetail where
  "techNoBase = \<lparr>name = ''Diary Study'', slug = ''diary-study'',
     stage = ''Discover'', outcomes = Some [], output_types = Some [],
     device_types = Some [], project_types = [''New'', ''Old''], user_base = Some []\<rparr>"

definition techInterviewsCopy :: TechniqueDetail where
  "techInterviewsCopy = \<lparr>name = ''User Interviews'', slug = ''user-interviews-copy'',
     stage = ''Discover'', outcomes = Some [''Qualitative'', ''Insight''],
     output_types = Some [], device_types = Some [''Mobile'', ''Desktop''],
     project_types = [''New''], user_base = Some [''new'']\<rparr>"

definition catalogUnset :: "TechniqueDetail list" where
  "catalogUnset = [techInterviews, techExistingOnly, techRelease]"

definition catalogTwice :: "TechniqueDetail list" where
  "catalogTwice = [techInterviews, techAuditOld, techInterviewsCopy, techAuditNew]"

definition resultTwice :: recommendations where
  "resultTwice =
     [(''Discover'', [\<lparr>ename = ''User Interviews'', eslug = ''user-interviews''\<rparr>]),
      (''Define'', [\<lparr>ename = ''Audit'', eslug = ''audit-new''\<rparr>]),
      (''Design'', []), (''Develop'', []), (''Deliver'', [])]"

definition techDeliverEmpty :: TechniqueDetail where
  "techDeliverEmpty = \<lparr>name = ''Handoff'', slug = ''handoff'', stage = ''Deliver'',
     outcomes = Some [], output_types = Some [], device_types = Some [],
     project_types = [''New''], user_base = Some [''new'']\<rparr>"

section \<open>The loop in closed form\<close>

text \<open>
  As long as the keys of \<^verbatim>\<open>recommendations\<close> are distinct, one pass of the loop body
  either throws (the technique satisfies the criteria and its stage is an inherited
  property name) or applies the guarded push to the array of the technique's stage and
  leaves every other array alone. Iterated over the catalog this gives each stage the
  array \<open>stageList\<close>; the closing loop over \<^verbatim>\<open>allStages\<close> then changes nothing.
\<close>

lemma map_of_keys: "(map_of recs k = None) = (k \<notin> fst ` set recs)"
  by (simp add: map_of_eq_None_iff)

lemma map_other_keys:
  "k \<notin> fst ` set ps \<Longrightarrow> map (\<lambda>(k', x). (k', if k' = k \<and> b then f x else x)) ps = ps"
  by (induction ps) auto

lemma setProp_map:
  "distinct (map fst recs) \<Longrightarrow> k \<in> fst ` set recs \<Longrightarrow>
   setProp recs k v = map (\<lambda>(k', x). (k', if k' = k then v else x)) recs"
proof (induction recs k v rule: setProp.induct)
  case (1 key v)
  then show ?case by simp
next
  case (2 k old ps key v)
  show ?case
  proof (cases "k = key")
    case True
    then have "key \<notin> fst ` set ps" using "2.prems" by auto
    then have "map (\<lambda>(k', x). (k', if k' = key \<and> True then (\<lambda>_. v) x else x)) ps = ps"
      by (rule map_other_keys)
    then show ?thesis using True by simp
  next
    case False
    then show ?thesis using 2 by auto
  qed
qed

lemma visit_cases:
  assumes "distinct (map fst recs)"
  shows "visit req recs t =
     (if allMatch req t \<and> stage t \<notin> fst ` set recs \<and> stage t \<in> set objectPrototypeKeys
      then Inl TypeError
      else Inr (map (\<lambda>(k, lst). (k, if k = stage t \<and> allMatch req t then pushUnique lst t else lst)) recs))"
proof (cases "allMatch req t")
  case False
  then show ?thesis by (simp add: visit_def case_prod_unfold)
next
  case True
  show ?thesis
  proof (cases "map_of recs (stage t)")
    case None
    then have nk: "stage t \<notin> fst ` set recs" by (simp add: map_of_keys)
    then have "map (\<lambda>(k, lst). (k, if k = stage t \<and> allMatch req t then pushUnique lst t else lst)) recs = recs"
      by (induction recs) auto
    with True None nk show ?thesis by (simp add: visit_def getProp_def)
  next
    case (Some lst)
    then have k: "stage t \<in> fst ` set recs" by (metis map_of_keys option.distinct(1))
    have val: "x = lst" if "(stage t, x) \<in> set recs" for x
      using that Some assms by simp
    have upd: "map (\<lambda>(k, x). (k, if k = stage t then v else x)) recs
             = map (\<lambda>(k, x). (k, if k = stage t then f x else x)) recs" if "f lst = v" for f v
      using val that by (intro map_cong) auto
    show ?thesis
    proof (cases "find (\<lambda>e. ename e = name t) lst = None")
      case T2: True
      then have "visit req recs t = Inr (setProp recs (stage t) (pushUnique lst t))"
        using True Some by (simp add: visit_def getProp_def pushUnique_def)
      then show ?thesis using True k upd[of "\<lambda>x. pushUnique x t" "pushUnique lst t"]
        by (simp add: setProp_map[OF assms k])
    next
      case F2: False
      then have v: "visit req recs t = Inr recs" and p: "pushUnique lst t = lst"
        using True Some by (auto simp: visit_def getProp_def pushUnique_def)
      have "map (\<lambda>(k, x). (k, if k = stage t then pushUnique x t else x)) recs = recs"
        using val p by (intro map_idI) auto
      then show ?thesis using True k v by simp
    qed
  qed
qed

lemma forEach_visit:
  assumes "distinct (map fst recs)"
  shows "forEach (visit req) recs catalog =
     (if \<exists>t \<in> set catalog. allMatch req t \<and> stage t \<notin> fst ` set recs \<and> stage t \<in> set objectPrototypeKeys
      then Inl TypeError
      else Inr (map (\<lambda>(k, lst). (k, stageList req catalog k lst)) recs))"
  using assms
proof (induction catalog arbitrary: recs)
  case Nil
  then show ?case by (simp add: stageList_def)
next
  case (Cons t ts)
  let ?recs' = "map (\<lambda>(k, lst). (k, if k = stage t \<and> allMatch req t then pushUnique lst t else lst)) recs"
  have fst': "map fst ?recs' = map fst recs" by (induction recs) auto
  have d': "distinct (map fst ?recs')" unfolding fst' by (rule Cons.prems)
  have keys': "fst ` set ?recs' = fst ` set recs" using fst' by (metis list.set_map)
  have step: "map (\<lambda>(k, lst). (k, stageList req ts k lst)) ?recs'
            = map (\<lambda>(k, lst). (k, stageList req (t # ts) k lst)) recs"
    by (induction recs) (auto simp: stageList_def)
  show ?case
  proof (cases "allMatch req t \<and> stage t \<notin> fst ` set recs \<and> stage t \<in> set objectPrototypeKeys")
    case True
    then show ?thesis by (simp add: visit_cases[OF Cons.prems])
  next
    case False
    have v: "visit req recs t = Inr ?recs'"
      by (simp only: visit_cases[OF Cons.prems] if_not_P[OF False])
    have "forEach (visit req) recs (t # ts) = forEach (visit req) ?recs' ts"
      by (simp add: v)
    also have "\<dots> = (if \<exists>t \<in> set ts. allMatch req t \<and> stage t \<notin> fst ` set ?recs' \<and> stage t \<in> set objectPrototypeKeys
      then Inl TypeError
      else Inr (map (\<lambda>(k, lst). (k, stageList req ts k lst)) ?recs'))"
      by (rule Cons.IH[OF d'])
    finally show ?thesis using False unfolding keys' step by auto
  qed
qed


lemma ensureStage_present:
  "\<forall>k \<in> set ks. k \<in> fst ` set recs \<Longrightarrow> foldl ensureStage recs ks = recs"
proof (induction ks)
  case Nil
  then show ?case by simp
next
  case (Cons k ks)
  then have "map_of recs k \<noteq> None" by (simp add: map_of_keys)
  then have "ensureStage recs k = recs"
    by (auto simp: ensureStage_def getProp_def)
  then show ?case using Cons by simp
qed

lemma stages_not_inherited: "s \<in> set allStages \<Longrightarrow> s \<notin> set objectPrototypeKeys"
  by (auto simp: allStages_def objectPrototypeKeys_def)

lemma getFilteredTechniques_char:
  "getFilteredTechniques catalog (Some req) =
     (if \<exists>t \<in> set catalog. allMatch req t \<and> stage t \<in> set objectPrototypeKeys
      then Inl TypeError
      else Inr (map (\<lambda>k. (k, stageList req catalog k [])) allStages))"
proof -
  let ?recs0 = "map (\<lambda>k. (k, [])) allStages :: recommendations"
  have d: "distinct (map fst ?recs0)" by (simp add: allStages_def)
  have keys: "fst ` set ?recs0 = set allStages" by (simp add: allStages_def)
  have inh: "(stage t \<notin> fst ` set ?recs0 \<and> stage t \<in> set objectPrototypeKeys)
           = (stage t \<in> set objectPrototypeKeys)" for t
    unfolding keys using stages_not_inherited by blast
  have res: "map (\<lambda>(k, lst). (k, stageList req catalog k lst)) ?recs0
           = map (\<lambda>k. (k, stageList req catalog k [])) allStages"
    by simp
  have k2: "\<forall>k \<in> set allStages. k \<in> fst ` set (map (\<lambda>k. (k, stageList req catalog k [])) allStages)"
    by (simp add: image_image)
  have fe: "forEach (visit req) ?recs0 catalog =
     (if \<exists>t \<in> set catalog. allMatch req t \<and> stage t \<in> set objectPrototypeKeys
      then Inl TypeError
      else Inr (map (\<lambda>k. (k, stageList req catalog k [])) allStages))"
    unfolding forEach_visit[OF d] inh res ..
  have r0: "[(''Discover'', []), (''Define'', []), (''Design'', []),
             (''Develop'', []), (''Deliver'', [])] = ?recs0"
    by (simp add: allStages_def)
  show ?thesis
    unfolding getFilteredTechniques_def Let_def r0 option.case fe
    by (simp add: ensureStage_present[OF k2])
qed

lemma getFilteredTechniques_None:
  "getFilteredTechniques catalog None = Inr (map (\<lambda>k. (k, [])) allStages)"
  by (simp add: getFilteredTechniques_def allStages_def)

lemma map_of_stages:
  "s \<in> set allStages \<Longrightarrow> map_of (map (\<lambda>k. (k, f k)) allStages) s = Some (f s)"
  by (simp add: map_of_map_restrict)


lemma find_name_None:
  "(find (\<lambda>e. ename e = n) acc = None) = (n \<notin> ename ` set acc)"
  by (auto simp: find_None_iff image_iff)

lemma pushUnique_step_names:
  "ename ` set (pushUnique acc t) = insert (name t) (ename ` set acc)"
  by (auto simp: pushUnique_def toEntry_def find_name_None)

lemma pushUnique_names:
  "ename ` set (foldl pushUnique acc ts) = ename ` set acc \<union> name ` set ts"
  by (induction ts arbitrary: acc) (auto simp: pushUnique_step_names)

lemma pushUnique_distinct:
  "distinct (map ename acc) \<Longrightarrow> distinct (map ename (foldl pushUnique acc ts))"
proof (induction ts arbitrary: acc)
  case Nil
  then show ?case by simp
next
  case (Cons t ts)
  have "distinct (map ename (pushUnique acc t))"
    using Cons.prems by (auto simp: pushUnique_def toEntry_def find_name_None)
  then show ?case using Cons.IH by simp
qed

lemma pushUnique_subseq:
  "\<exists>rest. foldl pushUnique acc ts = acc @ rest \<and> subseq rest (map toEntry ts)"
proof (induction ts arbitrary: acc)
  case Nil
  then show ?case by simp
next
  case (Cons t ts)
  obtain rest where r: "foldl pushUnique (pushUnique acc t) ts = pushUnique acc t @ rest"
      and s: "subseq rest (map toEntry ts)"
    using Cons.IH by blast
  show ?case
  proof (cases "find (\<lambda>e. ename e = name t) acc = None")
    case True
    then have "foldl pushUnique acc (t # ts) = acc @ (toEntry t # rest)"
      using r by (simp add: pushUnique_def)
    moreover have "subseq (toEntry t # rest) (map toEntry (t # ts))" using s by simp
    ultimately show ?thesis by blast
  next
    case False
    then have "foldl pushUnique acc (t # ts) = acc @ rest"
      using r by (simp add: pushUnique_def)
    moreover have "subseq rest (map toEntry (t # ts))" using s by (simp add: list_emb_Cons)
    ultimately show ?thesis by blast
  qed
qed

lemma pushUnique_first:
  "e \<in> set (foldl pushUnique acc ts) \<Longrightarrow> e \<notin> set acc \<Longrightarrow>
   ename e \<notin> ename ` set acc \<and> (\<exists>t. find (\<lambda>t. name t = ename e) ts = Some t \<and> e = toEntry t)"
proof (induction ts arbitrary: acc)
  case Nil
  then show ?case by simp
next
  case (Cons t ts)
  show ?case
  proof (cases "e \<in> set (pushUnique acc t)")
    case True
    with Cons.prems(2) have "e = toEntry t" "find (\<lambda>x. ename x = name t) acc = None"
      by (auto simp: pushUnique_def split: if_splits)
    then show ?thesis by (auto simp: toEntry_def find_name_None)
  next
    case False
    from Cons.prems(1) have "e \<in> set (foldl pushUnique (pushUnique acc t) ts)" by simp
    from Cons.IH[OF this False]
    have n: "ename e \<notin> ename ` set (pushUnique acc t)"
      and f: "\<exists>t. find (\<lambda>t. name t = ename e) ts = Some t \<and> e = toEntry t" by auto
    from n have "name t \<noteq> ename e" "ename e \<notin> ename ` set acc"
      by (auto simp: pushUnique_step_names)
    with f show ?thesis by simp
  qed
qed

lemma pushUnique_distinct_names:
  "distinct (map name ts) \<Longrightarrow> name ` set ts \<inter> ename ` set acc = {} \<Longrightarrow>
   foldl pushUnique acc ts = acc @ map toEntry ts"
proof (induction ts arbitrary: acc)
  case Nil
  then show ?case by simp
next
  case (Cons t ts)
  from Cons.prems(2) have "find (\<lambda>e. ename e = name t) acc = None"
    by (auto simp: find_name_None)
  then have p: "pushUnique acc t = acc @ [toEntry t]" by (simp add: pushUnique_def)
  have "name ` set ts \<inter> ename ` set (acc @ [toEntry t]) = {}"
    using Cons.prems by (auto simp: toEntry_def)
  with Cons.IH[of "acc @ [toEntry t]"] Cons.prems(1) p show ?case by simp
qed

lemma find_filter: "find P (filter Q xs) = find (\<lambda>x. Q x \<and> P x) xs"
  by (induction xs) auto

lemma doArraysIntersect_tags:
  "doArraysIntersect r t = (tags r = {} \<or> tags t = {} \<or> (\<exists>x. x \<in> tags r \<and> x \<in> tags t))"
  by (auto simp: doArraysIntersect_def tags_def list_ex_iff split: option.splits)

lemma count_list_distinct: "distinct xs \<Longrightarrow> x \<in> set xs \<Longrightarrow> count_list xs x = 1"
  by (induction xs) (auto simp: count_list_0_iff)

lemma allMatch_unset:
  assumes "tags (output_type req) = {}" "tags (outcome req) = {}" "tags (device_type req) = {}"
    and "project_type req = None" "existing_users req = None"
  shows "allMatch req t = (user_base t = None \<or> ''new'' \<in> tags (user_base t))"
  using assms
  by (auto simp: allMatch_def projectTypeMatch_def outcomeMatch_def deviceTypeMatch_def
      outputTypeMatch_def doArraysIntersect_tags userBaseMatch_def userContext_def tags_def
      split: option.splits)

lemma toEntry_name: "map ename (map toEntry ts) = map name ts"
  by (simp add: toEntry_def comp_def)

lemma once_by_name:
  "distinct (map f xs) \<Longrightarrow> n \<in> f ` set xs \<Longrightarrow> length (filter (\<lambda>x. f x = n) xs) = 1"
proof (induction xs)
  case Nil
  then show ?case by simp
next
  case (Cons x xs)
  show ?case
  proof (cases "f x = n")
    case True
    with Cons.prems(1) have "n \<notin> f ` set xs" by simp
    then have "filter (\<lambda>x. f x = n) xs = []"
      unfolding filter_empty_conv by blast
    with True show ?thesis by simp
  next
    case False
    with Cons show ?thesis by auto
  qed
qed

lemma getFilteredTechniques_filter:
  assumes "\<And>t. t \<in> set catalog \<Longrightarrow> allMatch req t \<Longrightarrow> Q t"
  shows "getFilteredTechniques catalog (Some req) = getFilteredTechniques (filter Q catalog) (Some req)"
proof -
  have a: "(\<exists>t \<in> set catalog. allMatch req t \<and> stage t \<in> set objectPrototypeKeys) =
           (\<exists>t \<in> set (filter Q catalog). allMatch req t \<and> stage t \<in> set objectPrototypeKeys)"
    using assms by auto
  have "filter (\<lambda>t. stage t = k \<and> allMatch req t) (filter Q catalog) =
        filter (\<lambda>t. stage t = k \<and> allMatch req t) catalog" for k
    unfolding filter_filter using assms by (intro filter_cong) auto
  then have b: "stageList req (filter Q catalog) k [] = stageList req catalog k []" for k
    by (simp add: stageList_def)
  show ?thesis unfolding getFilteredTechniques_char a b ..
qed

lemma unknown_stage_skipped:
  "getFilteredTechniques catalog (Some req) =
     getFilteredTechniques
       (filter (\<lambda>t. stage t \<in> set allStages \<or> stage t \<in> set objectPrototypeKeys) catalog)
       (Some req)"
proof -
  let ?Q = "\<lambda>t. stage t \<in> set allStages \<or> stage t \<in> set objectPrototypeKeys"
  have a: "(\<exists>t \<in> set catalog. allMatch req t \<and> stage t \<in> set objectPrototypeKeys) =
           (\<exists>t \<in> set (filter ?Q catalog). allMatch req t \<and> stage t \<in> set objectPrototypeKeys)"
    by auto
  have "filter (\<lambda>t. stage t = k \<and> allMatch req t) (filter ?Q catalog) =
        filter (\<lambda>t. stage t = k \<and> allMatch req t) catalog" if "k \<in> set allStages" for k
    unfolding filter_filter using that by (intro filter_cong) auto
  then have b: "stageList req (filter ?Q catalog) k [] = stageList req catalog k []"
    if "k \<in> set allStages" for k
    using that by (simp add: stageList_def)
  have m: "map (\<lambda>k. (k, stageList req (filter ?Q catalog) k [])) allStages =
        map (\<lambda>k. (k, stageList req catalog k [])) allStages"
    by (rule map_cong) (simp_all add: b)
  show ?thesis unfolding getFilteredTechniques_char m a[symmetric] ..
qed

lemma of_char_lowerChar:
  "(of_char (lowerChar c) :: nat) = (if isUpperCase c then of_char c + 32 else of_char c)"
proof -
  have lt: "(of_char c :: nat) < 256" by simp
  show ?thesis
  proof (cases "isUpperCase c")
    case True
    then have "(of_char c :: nat) + 32 < 256" using lt by (auto simp: isUpperCase_def Let_def)
    with True show ?thesis by (simp add: lowerChar_def isUpperCase_def Let_def)
  next
    case False
    then have "lowerChar c = c" by (auto simp: lowerChar_def isUpperCase_def Let_def)
    with False show ?thesis by simp
  qed
qed

lemma lowerChar_eq_iff: "(lowerChar c = lowerChar d) = sameLetter c d"
proof -
  have "(lowerChar c = lowerChar d) = ((of_char (lowerChar c) :: nat) = of_char (lowerChar d))"
    by simp
  also have "\<dots> = sameLetter c d"
  proof -
    have inj: "(c = d) = ((of_char c :: nat) = of_char d)" by simp
    show ?thesis
      unfolding of_char_lowerChar sameLetter_def inj
      by (auto simp: isUpperCase_def Let_def)
  qed
  finally show ?thesis .
qed

lemma toLowerCase_eq_iff: "(toLowerCase p = toLowerCase v) = equalIgnoringCase p v"
  unfolding toLowerCase_def equalIgnoringCase_def
proof (induction p arbitrary: v)
  case Nil
  then show ?case by auto
next
  case (Cons c p)
  then show ?case by (cases v) (auto simp: lowerChar_eq_iff)
qed

lemma pushUnique_positions:
  "foldl pushUnique [] (filter P ts) =
     map (\<lambda>i. toEntry (ts ! i))
       (filter (\<lambda>i. P (ts ! i) \<and> (\<forall>t' \<in> set (take i ts). \<not> (P t' \<and> name t' = name (ts ! i))))
          [0..<length ts])"
proof (induction ts rule: rev_induct)
  case Nil
  then show ?case by simp
next
  case (snoc t ts)
  let ?L = "foldl pushUnique [] (filter P ts)"
  let ?C = "\<lambda>xs i. P (xs ! i) \<and> (\<forall>t' \<in> set (take i xs). \<not> (P t' \<and> name t' = name (xs ! i)))"
  have old: "filter (?C (ts @ [t])) [0..<length ts] = filter (?C ts) [0..<length ts]"
    by (intro filter_cong) (auto simp: nth_append)
  have oldm: "map (\<lambda>i. toEntry ((ts @ [t]) ! i)) (filter (?C ts) [0..<length ts])
            = map (\<lambda>i. toEntry (ts ! i)) (filter (?C ts) [0..<length ts])"
    by (intro map_cong) (auto simp: nth_append)
  have names: "ename ` set ?L = name ` set (filter P ts)"
    by (simp add: pushUnique_names)
  have last: "?C (ts @ [t]) (length ts) = (P t \<and> name t \<notin> ename ` set ?L)"
    unfolding names by (auto simp: image_iff)
  have lhs: "foldl pushUnique [] (filter P (ts @ [t])) =
        (if P t \<and> name t \<notin> ename ` set ?L then ?L @ [toEntry t] else ?L)"
    by (simp add: pushUnique_def find_name_None)
  have rhs: "map (\<lambda>i. toEntry ((ts @ [t]) ! i)) (filter (?C (ts @ [t])) [0..<length (ts @ [t])])
      = map (\<lambda>i. toEntry (ts ! i)) (filter (?C ts) [0..<length ts])
        @ (if P t \<and> name t \<notin> ename ` set ?L then [toEntry t] else [])"
    using old oldm last by simp
  show ?case unfolding lhs rhs snoc.IH[symmetric] by simp
qed

lemma returns_five_keys_without_inherited_stages:
  assumes "\<forall>t \<in> set catalog. stage t \<notin> set objectPrototypeKeys"
  shows "\<exists>recs. getFilteredTechniques catalog requirement = Inr recs \<and> map fst recs = allStages"
proof (cases requirement)
  case None
  then show ?thesis by (simp add: getFilteredTechniques_None comp_def)
next
  case (Some req)
  with assms show ?thesis by (simp add: getFilteredTechniques_char comp_def)
qed

section \<open>Properties\<close>



text \<open>
  C2. The function is meant to return, for every requirement and without a failure, an
  object with exactly the five stage keys. For a requirement with every selection field
  unset and a catalog that holds a technique of stage \<^verbatim>\<open>"constructor"\<close> after an
  ordinary one, it throws instead: nothing is selected, so the technique satisfies all
  five criteria, and the guard reads the inherited function and calls \<^verbatim>\<open>find\<close> on it. For catalogs none of
  whose stages names a property of \<^verbatim>\<open>Object.prototype\<close> the function does return the
  five keys for every requirement (lemma \<open>returns_five_keys_without_inherited_stages\<close>).
\<close>

theorem unset_requirement_throws_on_inherited_stage:
  "output_type reqAbsent = None \<and> outcome reqAbsent = None \<and> device_type reqAbsent = None \<and>
   project_type reqAbsent = None \<and> existing_users reqAbsent = None \<and>
   getFilteredTechniques [techInterviews, techInherited] (Some reqAbsent) = Inl TypeError"
  by code_simp

text \<open>
  C3. For a technique whose stage is Discover, Define or Design the output-type criterion
  is true whatever the requirement selects. For a technique whose stage is Develop or
  Deliver it is the lenient-intersection rule between the requirement's
  \<^verbatim>\<open>output_type\<close> and the technique's \<^verbatim>\<open>output_types\<close>: true when either side carries
  no tag or the two share one.
\<close>

theorem output_type_bypass_early_stages:
  "(stage t \<in> {''Discover'', ''Define'', ''Design''} \<longrightarrow> outputTypeMatch req t) \<and>
   (stage t \<in> {''Develop'', ''Deliver''} \<longrightarrow>
      outputTypeMatch req t =
        (tags (output_type req) = {} \<or> tags (output_types t) = {} \<or>
         (\<exists>x. x \<in> tags (output_type req) \<and> x \<in> tags (output_types t))))"
  unfolding outputTypeMatch_def isEarlyStage_def earlyStages_def doArraysIntersect_tags
  by auto

theorem output_type_bypass_early_stages_witness:
  "stage techInterviews \<in> {''Discover'', ''Define'', ''Design''} \<and>
   outputTypeMatch reqKiosk techInterviews \<and>
   stage techRelease \<in> {''Develop'', ''Deliver''} \<and>
   outputTypeMatch reqDesktop techRelease =
     (tags (output_type reqDesktop) = {} \<or> tags (output_types techRelease) = {} \<or>
      (\<exists>x. x \<in> tags (output_type reqDesktop) \<and> x \<in> tags (output_types techRelease))) \<and>
   \<not> outputTypeMatch reqDesktop techRelease"
proof -
  have e: "stage techInterviews \<in> {''Discover'', ''Define'', ''Design''}"
    by (simp add: techInterviews_def)
  have l: "stage techRelease \<in> {''Develop'', ''Deliver''}"
    by (simp add: techRelease_def)
  have n: "\<not> outputTypeMatch reqDesktop techRelease"
    by code_simp
  from output_type_bypass_early_stages [of techInterviews reqKiosk]
       output_type_bypass_early_stages [of techRelease reqDesktop] e l n
  show ?thesis by blast
qed

text \<open>
  C4, in the form the code satisfies. Let \<^verbatim>\<open>output_type\<close>, \<^verbatim>\<open>outcome\<close> and \<^verbatim>\<open>device_type\<close> be empty and
  \<^verbatim>\<open>project_type\<close> and \<^verbatim>\<open>existing_users\<close> unset, and let the catalog have its stages
  among the five and its names unique. Then a catalog technique appears in its stage's
  array exactly once when its \<^verbatim>\<open>user_base\<close> is absent or contains \<^verbatim>\<open>"new"\<close>, and not
  at all otherwise: an unset \<^verbatim>\<open>existing_users\<close> selects the user context
  \<^verbatim>\<open>"new"\<close>.
\<close>

theorem permissive_on_empty_selections:
  assumes "tags (output_type req) = {}" "tags (outcome req) = {}" "tags (device_type req) = {}"
    and "project_type req = None" "existing_users req = None"
    and "\<forall>t \<in> set catalog. stage t \<in> set allStages" and "distinct (map name catalog)"
    and "t \<in> set catalog"
  shows "\<exists>recs lst. getFilteredTechniques catalog (Some req) = Inr recs \<and>
           map_of recs (stage t) = Some lst \<and>
           count_list lst (toEntry t) =
             (if user_base t = None \<or> ''new'' \<in> tags (user_base t) then 1 else 0)"
proof -
  let ?F = "filter (\<lambda>t'. stage t' = stage t \<and> allMatch req t') catalog"
  let ?recs = "map (\<lambda>k. (k, stageList req catalog k [])) allStages"
  have am: "allMatch req t' = (user_base t' = None \<or> ''new'' \<in> tags (user_base t'))" for t'
    by (rule allMatch_unset[OF assms(1-5)])
  have "\<not> (\<exists>t \<in> set catalog. allMatch req t \<and> stage t \<in> set objectPrototypeKeys)"
    using assms(6) stages_not_inherited by blast
  then have run: "getFilteredTechniques catalog (Some req) = Inr ?recs"
    by (simp only: getFilteredTechniques_char if_False)
  have st: "stage t \<in> set allStages" using assms(6,8) by blast
  have look: "map_of ?recs (stage t) = Some (stageList req catalog (stage t) [])"
    by (rule map_of_stages[OF st])
  have dF: "distinct (map name ?F)" using assms(7) by (rule distinct_map_filter)
  have lst: "stageList req catalog (stage t) [] = map toEntry ?F"
    unfolding stageList_def using pushUnique_distinct_names[OF dF, of "[]"] by simp
  have dE: "distinct (map toEntry ?F)"
  proof -
    have "distinct (map ename (map toEntry ?F))" unfolding toEntry_name by (rule dF)
    then show ?thesis by (rule distinct_map[THEN iffD1, THEN conjunct1])
  qed
  have inj: "inj_on name (set catalog)" using assms(7) by (simp add: distinct_map)
  have mem: "(toEntry t \<in> set (map toEntry ?F)) = allMatch req t"
  proof
    assume "toEntry t \<in> set (map toEntry ?F)"
    then obtain t' where t': "t' \<in> set catalog" "allMatch req t'" "toEntry t' = toEntry t"
      by auto
    from t'(3) have "name t' = name t" by (simp add: toEntry_def)
    with inj t'(1) assms(8) have "t' = t" by (auto dest: inj_onD)
    with t'(2) show "allMatch req t" by simp
  next
    assume "allMatch req t"
    with assms(8) show "toEntry t \<in> set (map toEntry ?F)" by simp
  qed
  have "count_list (map toEntry ?F) (toEntry t) = (if allMatch req t then 1 else 0)"
  proof (cases "allMatch req t")
    case True
    with mem dE show ?thesis by (simp add: count_list_distinct)
  next
    case False
    with mem show ?thesis by (simp add: count_list_0_iff)
  qed
  then have "count_list (stageList req catalog (stage t) []) (toEntry t) =
             (if user_base t = None \<or> ''new'' \<in> tags (user_base t) then 1 else 0)"
    unfolding lst am .
  with run look show ?thesis by blast
qed

theorem permissive_on_empty_selections_witness:
  "tags (output_type reqUnset) = {} \<and> tags (outcome reqUnset) = {} \<and>
   tags (device_type reqUnset) = {} \<and> project_type reqUnset = None \<and>
   existing_users reqUnset = None \<and>
   stage techInterviews \<in> set allStages \<and> stage techExistingOnly \<in> set allStages \<and>
   stage techRelease \<in> set allStages \<and>
   distinct (map name catalogUnset) \<and> techInterviews \<in> set catalogUnset \<and>
   (\<exists>recs lst. getFilteredTechniques catalogUnset (Some reqUnset) = Inr recs \<and>
           map_of recs (stage techInterviews) = Some lst \<and>
           count_list lst (toEntry techInterviews) =
             (if user_base techInterviews = None \<or> ''new'' \<in> tags (user_base techInterviews)
              then 1 else 0)) \<and>
   ''new'' \<in> tags (user_base techInterviews)"
proof -
  have h1: "tags (output_type reqUnset) = {}" by (simp add: reqUnset_def tags_def)
  have h2: "tags (outcome reqUnset) = {}" by (simp add: reqUnset_def tags_def)
  have h3: "tags (device_type reqUnset) = {}" by (simp add: reqUnset_def tags_def)
  have h4: "project_type reqUnset = None" by (simp add: reqUnset_def)
  have h5: "existing_users reqUnset = None" by (simp add: reqUnset_def)
  have s: "stage techInterviews \<in> set allStages" "stage techExistingOnly \<in> set allStages"
    "stage techRelease \<in> set allStages"
    by code_simp+
  then have h6: "\<forall>t \<in> set catalogUnset. stage t \<in> set allStages"
    by (simp add: catalogUnset_def)
  have h7: "distinct (map name catalogUnset)" by code_simp
  have h8: "techInterviews \<in> set catalogUnset" by (simp add: catalogUnset_def)
  have ub: "''new'' \<in> tags (user_base techInterviews)"
    by (simp add: techInterviews_def tags_def)
  from permissive_on_empty_selections [OF h1 h2 h3 h4 h5 h6 h7 h8] h1 h2 h3 h4 h5 s h7 h8 ub
  show ?thesis by (intro conjI)
qed

text \<open>
  With every selection empty or unset, a technique whose \<^verbatim>\<open>user_base\<close> is
  \<^verbatim>\<open>["existing"]\<close> is left out of its stage's array.
\<close>

theorem every_technique_once_counterexample:
  "tags (output_type reqUnset) = {} \<and> tags (outcome reqUnset) = {} \<and>
   tags (device_type reqUnset) = {} \<and> project_type reqUnset = None \<and>
   existing_users reqUnset = None \<and>
   stage techExistingOnly = ''Discover'' \<and>
   getFilteredTechniques [techExistingOnly] (Some reqUnset) =
     Inr [(''Discover'', []), (''Define'', []), (''Design'', []),
          (''Develop'', []), (''Deliver'', [])]"
  by code_simp

text \<open>
  C5, in the form the code satisfies. Whenever the function returns, the array of each
  stage consists of the entries of the catalog positions, in increasing order, that
  hold a technique of that stage satisfying all five criteria with no earlier technique
  of that stage and name satisfying them. So the array follows catalog order, holds
  each name at most once, every element is the entry of the first catalog technique of
  that stage and name that satisfies all five criteria, and the name of every technique
  of that stage that satisfies them occurs exactly once. Techniques that fail the
  criteria do not count as occurrences.
\<close>

theorem order_and_first_passing_occurrence:
  assumes "getFilteredTechniques catalog (Some req) = Inr recs" and "s \<in> set allStages"
  shows "\<exists>lst. map_of recs s = Some lst \<and>
     lst = map (\<lambda>i. toEntry (catalog ! i))
             (filter (firstPassingAt req catalog s) [0..<length catalog]) \<and>
     subseq lst (map toEntry catalog) \<and>
     distinct (map ename lst) \<and>
     (\<forall>e \<in> set lst. \<exists>t. find (\<lambda>t. (stage t = s \<and> allMatch req t) \<and> name t = ename e) catalog = Some t
                          \<and> e = toEntry t) \<and>
     (\<forall>t \<in> set catalog. stage t = s \<and> allMatch req t \<longrightarrow>
          length (filter (\<lambda>e. ename e = name t) lst) = 1)"
proof -
  let ?F = "filter (\<lambda>t. stage t = s \<and> allMatch req t) catalog"
  define lst where "lst = foldl pushUnique [] ?F"
  from assms(1) have recs: "recs = map (\<lambda>k. (k, stageList req catalog k [])) allStages"
    by (simp add: getFilteredTechniques_char split: if_splits)
  have look: "map_of recs s = Some lst"
    unfolding recs map_of_stages[OF assms(2)] stageList_def lst_def ..
  have fp: "firstPassingAt req catalog s =
      (\<lambda>i. (stage (catalog ! i) = s \<and> allMatch req (catalog ! i)) \<and>
           (\<forall>t' \<in> set (take i catalog).
               \<not> ((stage t' = s \<and> allMatch req t') \<and> name t' = name (catalog ! i))))"
    by (auto simp: firstPassingAt_def fun_eq_iff)
  have exact: "lst = map (\<lambda>i. toEntry (catalog ! i))
             (filter (firstPassingAt req catalog s) [0..<length catalog])"
    unfolding lst_def fp by (rule pushUnique_positions)
  have "subseq lst (map toEntry ?F)"
    using pushUnique_subseq[of "[]" ?F] by (simp add: lst_def)
  moreover have "subseq (map toEntry ?F) (map toEntry catalog)"
    by (rule subseq_map) simp
  ultimately have sub: "subseq lst (map toEntry catalog)"
    by (rule subseq_order.trans)
  have dist: "distinct (map ename lst)"
    unfolding lst_def by (rule pushUnique_distinct) simp
  have first: "\<exists>t. find (\<lambda>t. (stage t = s \<and> allMatch req t) \<and> name t = ename e) catalog = Some t
                  \<and> e = toEntry t" if "e \<in> set lst" for e
    using pushUnique_first[of e "[]" ?F] that by (simp add: lst_def find_filter)
  have once: "length (filter (\<lambda>e. ename e = name t) lst) = 1"
    if "t \<in> set catalog" "stage t = s \<and> allMatch req t" for t
  proof -
    have "name t \<in> name ` set ?F" using that by simp
    then have "name t \<in> ename ` set lst" by (simp add: lst_def pushUnique_names)
    with dist show ?thesis by (rule once_by_name)
  qed
  from look exact sub dist first once show ?thesis by blast
qed

theorem order_and_first_passing_occurrence_witness:
  "getFilteredTechniques catalogOrder (Some reqMobile) = Inr resultOrder \<and>
   ''Define'' \<in> set allStages \<and>
   (\<exists>lst. map_of resultOrder ''Define'' = Some lst \<and>
     lst = map (\<lambda>i. toEntry (catalogOrder ! i))
             (filter (firstPassingAt reqMobile catalogOrder ''Define'') [0..<length catalogOrder]) \<and>
     subseq lst (map toEntry catalogOrder) \<and>
     distinct (map ename lst) \<and>
     (\<forall>e \<in> set lst. \<exists>t. find (\<lambda>t. (stage t = ''Define'' \<and> allMatch reqMobile t) \<and>
                                   name t = ename e) catalogOrder = Some t
                          \<and> e = toEntry t) \<and>
     (\<forall>t \<in> set catalogOrder. stage t = ''Define'' \<and> allMatch reqMobile t \<longrightarrow>
          length (filter (\<lambda>e. ename e = name t) lst) = 1)) \<and>
   filter (firstPassingAt reqMobile catalogOrder ''Define'') [0..<length catalogOrder] = [1, 2] \<and>
   getFilteredTechniques catalogTwice (Some reqMobile) = Inr resultTwice \<and>
   ''Discover'' \<in> set allStages \<and>
   (\<exists>lst. map_of resultTwice ''Discover'' = Some lst \<and>
     lst = map (\<lambda>i. toEntry (catalogTwice ! i))
             (filter (firstPassingAt reqMobile catalogTwice ''Discover'') [0..<length catalogTwice]) \<and>
     subseq lst (map toEntry catalogTwice) \<and>
     distinct (map ename lst) \<and>
     (\<forall>e \<in> set lst. \<exists>t. find (\<lambda>t. (stage t = ''Discover'' \<and> allMatch reqMobile t) \<and>
                                   name t = ename e) catalogTwice = Some t
                          \<and> e = toEntry t) \<and>
     (\<forall>t \<in> set catalogTwice. stage t = ''Discover'' \<and> allMatch reqMobile t \<longrightarrow>
          length (filter (\<lambda>e. ename e = name t) lst) = 1)) \<and>
   filter (firstPassingAt reqMobile catalogTwice ''Discover'') [0..<length catalogTwice] = [0] \<and>
   stage techInterviewsCopy = ''Discover'' \<and> allMatch reqMobile techInterviewsCopy \<and>
   name techInterviewsCopy = name techInterviews"
proof -
  have run1: "getFilteredTechniques catalogOrder (Some reqMobile) = Inr resultOrder"
    by code_simp
  have st1: "''Define'' \<in> set allStages"
    by (simp add: allStages_def)
  have pos1: "filter (firstPassingAt reqMobile catalogOrder ''Define'') [0..<length catalogOrder] = [1, 2]"
    by code_simp
  have run2: "getFilteredTechniques catalogTwice (Some reqMobile) = Inr resultTwice"
    by code_simp
  have st2: "''Discover'' \<in> set allStages"
    by (simp add: allStages_def)
  have pos2: "filter (firstPassingAt reqMobile catalogTwice ''Discover'') [0..<length catalogTwice] = [0]"
    by code_simp
  have c: "stage techInterviewsCopy = ''Discover''" "allMatch reqMobile techInterviewsCopy"
     "name techInterviewsCopy = name techInterviews"
    by code_simp+
  from order_and_first_passing_occurrence [OF run1 st1]
       order_and_first_passing_occurrence [OF run2 st2] run1 st1 pos1 run2 st2 pos2 c
  show ?thesis by (intro conjI)
qed

text \<open>
  Two catalog entries share name and stage; the first fails the project-type criterion,
  so the array carries the slug of the second.
\<close>

theorem first_catalog_entry_slug_counterexample:
  "name techAuditOld = name techAuditNew \<and> stage techAuditOld = stage techAuditNew \<and>
   slug techAuditOld = ''audit-old'' \<and>
   getFilteredTechniques [techAuditOld, techAuditNew] (Some reqMobile) =
     Inr [(''Discover'', []),
          (''Define'', [\<lparr>ename = ''Audit'', eslug = ''audit-new''\<rparr>]),
          (''Design'', []), (''Develop'', []), (''Deliver'', [])]"
  by code_simp

text \<open>
  C6. The outcome criterion is true if and only if the requirement's \<^verbatim>\<open>outcome\<close>
  selection is empty or absent, or the technique's \<^verbatim>\<open>outcomes\<close> carry no tag, or the
  two share a tag; the device-type criterion is the same rule on \<^verbatim>\<open>device_type\<close> and
  \<^verbatim>\<open>device_types\<close>.
\<close>

theorem outcome_and_device_lenient_intersection:
  "outcomeMatch req t =
     (tags (outcome req) = {} \<or> tags (outcomes t) = {} \<or>
      (\<exists>x. x \<in> tags (outcome req) \<and> x \<in> tags (outcomes t))) \<and>
   deviceTypeMatch req t =
     (tags (device_type req) = {} \<or> tags (device_types t) = {} \<or>
      (\<exists>x. x \<in> tags (device_type req) \<and> x \<in> tags (device_types t)))"
  unfolding outcomeMatch_def deviceTypeMatch_def doArraysIntersect_tags by blast

theorem outcome_and_device_lenient_intersection_witness:
  "outcomeMatch reqMobile techInterviews =
     (tags (outcome reqMobile) = {} \<or> tags (outcomes techInterviews) = {} \<or>
      (\<exists>x. x \<in> tags (outcome reqMobile) \<and> x \<in> tags (outcomes techInterviews))) \<and>
   deviceTypeMatch reqMobile techInterviewsCopy =
     (tags (device_type reqMobile) = {} \<or> tags (device_types techInterviewsCopy) = {} \<or>
      (\<exists>x. x \<in> tags (device_type reqMobile) \<and> x \<in> tags (device_types techInterviewsCopy))) \<and>
   outcomeMatch reqMobile techInterviews \<and> \<not> outcomeMatch reqMobile techExistingOnly \<and>
   deviceTypeMatch reqMobile techInterviewsCopy"
proof -
  have e: "outcomeMatch reqMobile techInterviews" "\<not> outcomeMatch reqMobile techExistingOnly"
    "deviceTypeMatch reqMobile techInterviewsCopy"
    by code_simp+
  from outcome_and_device_lenient_intersection [of reqMobile techInterviews]
       outcome_and_device_lenient_intersection [of reqMobile techInterviewsCopy] e
  show ?thesis by blast
qed

text \<open>
  C7. The project-type criterion is true if and only if the requirement's
  \<^verbatim>\<open>project_type\<close> is unset (absent, or the empty string, which the truthiness test
  treats alike), or some element of the technique's \<^verbatim>\<open>project_types\<close> equals it up to
  the case of letters: same length and, at every position, the same character or a
  capital and its small letter. Comparing the two \<open>toLowerCase\<close> images, as the code
  does, is exactly this relation. In particular \<^verbatim>\<open>project_types = ["New"]\<close> matches
  \<^verbatim>\<open>project_type = "new"\<close>.
\<close>

theorem project_type_case_insensitive:
  "projectTypeMatch req t =
     (project_type req = None \<or> project_type req = Some [] \<or>
      (\<exists>v p. project_type req = Some v \<and> p \<in> set (project_types t) \<and>
             equalIgnoringCase p v)) \<and>
   (toLowerCase p = toLowerCase v) = equalIgnoringCase p v \<and>
   (project_types t = [''New''] \<and> project_type req = Some ''new'' \<longrightarrow> projectTypeMatch req t)"
proof -
  have eq: "(toLowerCase p = toLowerCase v) = equalIgnoringCase p v" for p v
    by (rule toLowerCase_eq_iff)
  have low: "equalIgnoringCase ''New'' ''new''" by code_simp
  have m: "projectTypeMatch req t =
     (project_type req = None \<or> project_type req = Some [] \<or>
      (\<exists>v p. project_type req = Some v \<and> p \<in> set (project_types t) \<and>
             equalIgnoringCase p v))"
    by (auto simp: projectTypeMatch_def list_ex_iff eq split: option.splits)
  have "project_types t = [''New''] \<and> project_type req = Some ''new'' \<longrightarrow> projectTypeMatch req t"
    using low unfolding m by auto
  with m eq show ?thesis by blast
qed

theorem project_type_case_insensitive_witness:
  "project_types techRelease = [''New''] \<and> project_type reqMobile = Some ''new'' \<and>
   projectTypeMatch reqMobile techRelease \<and> \<not> projectTypeMatch reqMobile techAuditOld \<and>
   project_types techAuditOld = [''Old''] \<and> project_type reqUpper = Some ''OLD'' \<and>
   equalIgnoringCase ''Old'' ''OLD'' \<and> projectTypeMatch reqUpper techAuditOld \<and>
   \<not> equalIgnoringCase ''New'' ''OLD'' \<and> \<not> projectTypeMatch reqUpper techRelease \<and>
   toLowerCase ''OLD'' = ''old''"
proof -
  have h: "project_types techRelease = [''New'']" "project_type reqMobile = Some ''new''"
    "project_types techAuditOld = [''Old'']" "project_type reqUpper = Some ''OLD''"
    by (simp_all add: techRelease_def reqMobile_def techAuditOld_def reqUpper_def)
  have e: "equalIgnoringCase ''Old'' ''OLD''" "\<not> equalIgnoringCase ''New'' ''OLD''"
    "\<not> equalIgnoringCase ''Old'' ''new''" "toLowerCase ''OLD'' = ''old''"
    "equalIgnoringCase ''New'' ''new''"
    by code_simp+
  from project_type_case_insensitive [of reqMobile techRelease]
       project_type_case_insensitive [of reqMobile techAuditOld]
       project_type_case_insensitive [of reqUpper techAuditOld]
       project_type_case_insensitive [of reqUpper techRelease] h e
  show ?thesis by simp
qed

text \<open>
  C8. The user context is \<^verbatim>\<open>"existing"\<close> when \<^verbatim>\<open>existing_users\<close> is true and
  \<^verbatim>\<open>"new"\<close> otherwise, also when it is unset. The user-base criterion is true if and
  only if the technique has no \<^verbatim>\<open>user_base\<close> or its \<^verbatim>\<open>user_base\<close> contains the user
  context.
\<close>

theorem user_base_match_context:
  "userContext req = (if existing_users req = Some True then ''existing'' else ''new'') \<and>
   userBaseMatch req t =
     (user_base t = None \<or> (\<exists>ub. user_base t = Some ub \<and> userContext req \<in> set ub))"
  by (auto simp: userContext_def userBaseMatch_def split: option.splits)

theorem user_base_match_context_witness:
  "userContext reqMobile = ''new'' \<and> userContext reqUnset = ''new'' \<and>
   userBaseMatch reqMobile techInterviews \<and> \<not> userBaseMatch reqUnset techExistingOnly \<and>
   userBaseMatch reqUnset techRelease"
proof -
  have e: "existing_users reqMobile = Some False" "existing_users reqUnset = None"
    "user_base techInterviews = Some [''new'', ''existing'']"
    "user_base techExistingOnly = Some [''existing'']" "user_base techRelease = None"
    by (simp_all add: reqMobile_def reqUnset_def techInterviews_def techExistingOnly_def
        techRelease_def)
  from user_base_match_context [of reqMobile techInterviews]
       user_base_match_context [of reqUnset techExistingOnly]
       user_base_match_context [of reqUnset techRelease] e
  show ?thesis by simp
qed

text \<open>
  C9. A technique whose \<^verbatim>\<open>user_base\<close> is present and empty fails the user-base
  criterion for every requirement, so the result is the one obtained from the catalog
  without such techniques. An empty \<^verbatim>\<open>outcomes\<close>, \<^verbatim>\<open>device_types\<close> or
  \<^verbatim>\<open>output_types\<close> array, in contrast, always satisfies its criterion.
\<close>

theorem empty_user_base_never_matches:
  "(user_base t = Some [] \<longrightarrow> \<not> userBaseMatch req t) \<and>
   (outcomes t = Some [] \<longrightarrow> outcomeMatch req t) \<and>
   (device_types t = Some [] \<longrightarrow> deviceTypeMatch req t) \<and>
   (output_types t = Some [] \<longrightarrow> outputTypeMatch req t) \<and>
   getFilteredTechniques catalog (Some req) =
     getFilteredTechniques (filter (\<lambda>t. user_base t \<noteq> Some []) catalog) (Some req)"
proof -
  have "getFilteredTechniques catalog (Some req) =
     getFilteredTechniques (filter (\<lambda>t. user_base t \<noteq> Some []) catalog) (Some req)"
    by (rule getFilteredTechniques_filter) (auto simp: allMatch_def userBaseMatch_def)
  moreover have "user_base t = Some [] \<longrightarrow> \<not> userBaseMatch req t"
    by (simp add: userBaseMatch_def)
  moreover have "outcomes t = Some [] \<longrightarrow> outcomeMatch req t"
    by (simp add: outcomeMatch_def doArraysIntersect_tags tags_def)
  moreover have "device_types t = Some [] \<longrightarrow> deviceTypeMatch req t"
    by (simp add: deviceTypeMatch_def doArraysIntersect_tags tags_def)
  moreover have "output_types t = Some [] \<longrightarrow> outputTypeMatch req t"
    by (simp add: outputTypeMatch_def doArraysIntersect_tags tags_def)
  ultimately show ?thesis by blast
qed

theorem empty_user_base_never_matches_witness:
  "user_base techNoBase = Some [] \<and> \<not> userBaseMatch reqMobile techNoBase \<and>
   outcomes techDeliverEmpty = Some [] \<and> outcomeMatch reqMobile techDeliverEmpty \<and>
   device_types techDeliverEmpty = Some [] \<and> deviceTypeMatch reqMobile techDeliverEmpty \<and>
   output_types techDeliverEmpty = Some [] \<and> outputTypeMatch reqMobile techDeliverEmpty \<and>
   getFilteredTechniques [techNoBase, techDeliverEmpty] (Some reqMobile) =
     getFilteredTechniques (filter (\<lambda>t. user_base t \<noteq> Some []) [techNoBase, techDeliverEmpty])
       (Some reqMobile) \<and>
   getFilteredTechniques [techNoBase, techDeliverEmpty] (Some reqMobile) =
     Inr [(''Discover'', []), (''Define'', []), (''Design'', []), (''Develop'', []),
          (''Deliver'', [\<lparr>ename = ''Handoff'', eslug = ''handoff''\<rparr>])]"
proof -
  have f: "user_base techNoBase = Some []" "outcomes techDeliverEmpty = Some []"
    "device_types techDeliverEmpty = Some []" "output_types techDeliverEmpty = Some []"
    by (simp_all add: techNoBase_def techDeliverEmpty_def)
  have run: "getFilteredTechniques [techNoBase, techDeliverEmpty] (Some reqMobile) =
     Inr [(''Discover'', []), (''Define'', []), (''Design'', []), (''Develop'', []),
          (''Deliver'', [\<lparr>ename = ''Handoff'', eslug = ''handoff''\<rparr>])]"
    by code_simp
  from empty_user_base_never_matches [of techNoBase reqMobile "[techNoBase, techDeliverEmpty]"]
       empty_user_base_never_matches [of techDeliverEmpty reqMobile "[techNoBase, techDeliverEmpty]"]
       f run
  show ?thesis by blast
qed

text \<open>
  C10. A catalog entry whose stage is not one of the five stage names is skipped
  without effect as long as the stage names no property of \<^verbatim>\<open>Object.prototype\<close> (lemma
  \<open>unknown_stage_skipped\<close>). An entry with the stage \<^verbatim>\<open>"constructor"\<close> that satisfies
  the criteria is not skipped: the guard \<^verbatim>\<open>recommendations[tech.stage] && ...\<close> reads the
  inherited function, which is truthy and has no \<^verbatim>\<open>find\<close>, and the call throws.
\<close>

theorem unknown_inherited_stage_throws:
  "stage techInherited \<notin> set allStages \<and>
   getFilteredTechniques [techInherited] (Some reqUnset) = Inl TypeError"
  by code_simp

end
